theory Spec2Isabelle
  imports Main "HOL-Library.Char_ord" "HOL-Library.List_Lexorder" "HOL-Library.Multiset"
begin

section \<open>Strings\<close>

text \<open>
  Python strings are modelled as \<^typ>\<open>string\<close>, one \<^typ>\<open>char\<close> per code point; the
  model therefore covers text whose code points are below 256. The order on strings is the
  lexicographic order on code points, which is the order Python's \<^verbatim>\<open>sorted\<close> uses.
\<close>

text \<open>\<^verbatim>\<open>s.split(c)\<close> for a one-character separator: never empty, \<^verbatim>\<open>''.split('.') == ['']\<close>.\<close>

fun str_split :: "string \<Rightarrow> char \<Rightarrow> string list" where
  "str_split [] c = [[]]"
| "str_split (x # xs) c =
     (if x = c then [] # str_split xs c
      else (case str_split xs c of
              [] \<Rightarrow> [[x]]
            | w # ws \<Rightarrow> (x # w) # ws))"

text \<open>\<^verbatim>\<open>name.split('.')[-1]\<close>\<close>

definition last_segment :: "string \<Rightarrow> string" where
  "last_segment name = last (str_split name (CHR ''.''))"

text \<open>\<^verbatim>\<open>sep.join(xs)\<close>\<close>

fun str_join :: "string \<Rightarrow> string list \<Rightarrow> string" where
  "str_join sep [] = []"
| "str_join sep [x] = x"
| "str_join sep (x # y # ys) = x @ sep @ str_join sep (y # ys)"

text \<open>
  \<^verbatim>\<open>s.replace(old, new)\<close>: non-overlapping occurrences, left to right; with an empty
  \<^verbatim>\<open>old\<close> Python inserts \<^verbatim>\<open>new\<close> before every character and at the end.
\<close>

fun replace_nonempty :: "string \<Rightarrow> string \<Rightarrow> string \<Rightarrow> string" where
  "replace_nonempty old new [] = []"
| "replace_nonempty old new (c # cs) =
     (if old \<noteq> [] \<and> take (length old) (c # cs) = old
      then new @ replace_nonempty old new (drop (length old) (c # cs))
      else c # replace_nonempty old new cs)"

definition str_replace :: "string \<Rightarrow> string \<Rightarrow> string \<Rightarrow> string" where
  "str_replace s old new =
     (if old = [] then new @ concat (map (\<lambda>c. c # new) s)
      else replace_nonempty old new s)"

text \<open>
  \<^verbatim>\<open>str.isspace\<close> on one character, for code points below 256: TAB, LF, VT, FF, CR,
  the separators 0x1C to 0x1F, space, NEL (0x85) and the no-break space (0xA0).
\<close>

definition isspace :: "char \<Rightarrow> bool" where
  "isspace c = (of_char c \<in> set [9, 10, 11, 12, 13, 28, 29, 30, 31, 32, 133, 160 :: nat])"

text \<open>\<^verbatim>\<open>s.strip()\<close>\<close>

definition str_strip :: "string \<Rightarrow> string" where
  "str_strip s = rev (dropWhile isspace (rev (dropWhile isspace s)))"

text \<open>
  A key of a JSON object that may be missing is an \<^typ>\<open>'a option\<close>. For strings and lists
  Python's truth test fails on both the missing key and the empty value, and the source only
  reads the value after that test, so \<open>or_empty\<close> gives the value that is tested and read.
\<close>

fun or_empty :: "'a list option \<Rightarrow> 'a list" where
  "or_empty None = []"
| "or_empty (Some xs) = xs"

section \<open>Data model\<close>

text \<open>
  A Field Descriptor is the JSON object of one property. The keys the generator reads are
  \<^verbatim>\<open>type\<close>, \<^verbatim>\<open>format\<close>, \<^verbatim>\<open>$ref\<close>, \<^verbatim>\<open>items\<close>, \<^verbatim>\<open>enum\<close> and \<^verbatim>\<open>description\<close>;
  each may be missing. A key that is present carries a value of the expected JSON type
  (enum values are strings).
\<close>

datatype field_desc = FieldDesc
  (fd_type: "string option")
  (fd_format: "string option")
  (fd_ref: "string option")
  (fd_items: "field_desc option")
  (fd_enum: "string list option")
  (fd_description: "string option")

text \<open>The object without any of these keys; as \<^verbatim>\<open>items\<close> it is falsy in Python.\<close>

definition empty_desc :: field_desc where
  "empty_desc = FieldDesc None None None None None None"

text \<open>
  A Schema Node. \<open>properties\<close> is the dictionary in its iteration order (a Python
  dictionary has no duplicate keys); \<open>required\<close> is the list of required field names.
\<close>

record schema_node =
  properties :: "(string \<times> field_desc) list option"
  required :: "string list option"
  description :: "string option"

text \<open>The Definition Table: \<open>map_of\<close> is the dictionary lookup.\<close>

type_synonym definitions = "(string \<times> schema_node) list"

text \<open>
  The source accumulates one flat list of lines. The model keeps the lines of each
  declaration together, tagged with the full name of the definition that produced them;
  \<open>lines_of\<close> flattens the blocks into the list the source returns.
\<close>

type_synonym block = "string \<times> string list"

definition lines_of :: "block list \<Rightarrow> string list" where
  "lines_of bs = concat (map snd bs)"

definition emitted_names :: "block list \<Rightarrow> string list" where
  "emitted_names bs = map fst bs"

section \<open>Type Mapper\<close>

definition type_map :: "(string \<times> string) list" where
  "type_map =
     [(''integer'', ''number''),
      (''number'', ''number''),
      (''string'', ''string''),
      (''boolean'', ''boolean''),
      (''object'', ''Record<string, unknown>'')]"

text \<open>\<^verbatim>\<open>type_map.get(prop_type, 'unknown')\<close>, where \<^verbatim>\<open>prop_type\<close> may be \<^verbatim>\<open>None\<close>.\<close>

definition base_type_of :: "string option \<Rightarrow> string" where
  "base_type_of prop_type =
     (case prop_type of
        None \<Rightarrow> ''unknown''
      | Some t \<Rightarrow> (case map_of type_map t of None \<Rightarrow> ''unknown'' | Some b \<Rightarrow> b))"

text \<open>\<^verbatim>\<open>f'"{e}"'\<close>\<close>

definition quoted :: "string \<Rightarrow> string" where
  "quoted e = [CHR 0x22] @ e @ [CHR 0x22]"

function swagger_type_to_typescript ::
  "string option \<Rightarrow> string option \<Rightarrow> string option \<Rightarrow> field_desc option
     \<Rightarrow> string list option \<Rightarrow> string"
where
  "swagger_type_to_typescript prop_type prop_format prop_ref prop_items enum =
     (if or_empty prop_ref \<noteq> [] then last_segment (or_empty prop_ref)
      else if or_empty enum \<noteq> [] then str_join '' | '' (map quoted (or_empty enum))
      else if prop_type = Some ''array'' then
        (case prop_items of
           None \<Rightarrow> ''unknown[]''
         | Some items \<Rightarrow>
             if items = empty_desc then ''unknown[]''
             else if or_empty (fd_ref items) \<noteq> []
               then last_segment (or_empty (fd_ref items)) @ ''[]''
             else swagger_type_to_typescript
                    (Some (case fd_type items of None \<Rightarrow> ''unknown'' | Some t \<Rightarrow> t))
                    (fd_format items) None None None @ ''[]'')
      else (let base_type = base_type_of prop_type
            in if prop_format = Some ''date-time'' \<and> base_type = ''string'' then ''string''
               else base_type))"
  by pat_completeness auto

text \<open>The recursive call passes no item descriptor, so it makes no further call.\<close>

termination
  by (relation "measure (\<lambda>(prop_type, prop_format, prop_ref, prop_items, enum).
                   case prop_items of None \<Rightarrow> 0 | Some items \<Rightarrow> Suc 0)") auto

text \<open>The Type Mapper applied to a property as \<open>generate_interface\<close> calls it.\<close>

definition ts_type_of :: "field_desc \<Rightarrow> string" where
  "ts_type_of prop_details =
     swagger_type_to_typescript (fd_type prop_details) (fd_format prop_details)
       (fd_ref prop_details) (fd_items prop_details) (fd_enum prop_details)"

section \<open>Declaration Builder\<close>

text \<open>\<^verbatim>\<open>model_def.get('properties', {})\<close>\<close>

definition get_properties :: "schema_node \<Rightarrow> (string \<times> field_desc) list" where
  "get_properties model_def = or_empty (properties model_def)"

text \<open>\<^verbatim>\<open>prop_details.get('items', {}).get('$ref')\<close>\<close>

definition item_ref :: "field_desc \<Rightarrow> string option" where
  "item_ref prop_details =
     (case fd_items prop_details of None \<Rightarrow> None | Some items \<Rightarrow> fd_ref items)"

text \<open>
  \<^verbatim>\<open>ref and ref in all_definitions\<close>, together with the lookup \<^verbatim>\<open>all_definitions[ref]\<close>
  that follows it: the name and its definition, or \<open>None\<close> when the test fails.
\<close>

definition lookup_ref :: "definitions \<Rightarrow> string option \<Rightarrow> (string \<times> schema_node) option" where
  "lookup_ref defs r =
     (if or_empty r \<noteq> [] then
        (case map_of defs (or_empty r) of
           None \<Rightarrow> None
         | Some d \<Rightarrow> Some (or_empty r, d))
      else None)"

text \<open>\<^verbatim>\<open>prop_desc.replace('\r\n', ' ').replace('\n', ' ').strip()\<close>\<close>

definition clean_desc :: "string \<Rightarrow> string" where
  "clean_desc prop_desc =
     str_strip (str_replace (str_replace prop_desc [CHR 0x0D, CHR 0x0A] '' '') [CHR 0x0A] '' '')"

definition optional_marker :: "string list \<Rightarrow> string \<Rightarrow> string" where
  "optional_marker required_fields prop_name = (if prop_name \<in> set required_fields then [] else ''?'')"

text \<open>The body of the loop over the sorted properties: the lines of one field.\<close>

definition field_lines :: "string list \<Rightarrow> string \<times> field_desc \<Rightarrow> string list" where
  "field_lines required_fields p =
     (let prop_name = fst p; prop_details = snd p
      in (if or_empty (fd_description prop_details) \<noteq> []
          then [''  /** '' @ clean_desc (or_empty (fd_description prop_details)) @ '' */'']
          else [])
         @ [''  '' @ prop_name @ optional_marker required_fields prop_name @ '': ''
              @ ts_type_of prop_details @ '';''])"

text \<open>
  \<^verbatim>\<open>sorted(properties.items())\<close>. The keys of a dictionary are distinct, so the pairs are
  ordered by their keys alone.
\<close>

definition sorted_items :: "(string \<times> field_desc) list \<Rightarrow> (string \<times> field_desc) list" where
  "sorted_items props = sort_key fst props"

text \<open>The lines \<open>generate_interface\<close> appends after the dependencies: one declaration.\<close>

definition interface_lines :: "string \<Rightarrow> schema_node \<Rightarrow> string list" where
  "interface_lines model_name model_def =
     (if or_empty (description model_def) \<noteq> []
      then [''/**'', '' * '' @ or_empty (description model_def), '' */'']
      else [])
     @ [''export interface '' @ last_segment model_name @ '' {'']
     @ concat (map (field_lines (or_empty (required model_def)))
                 (sorted_items (get_properties model_def)))
     @ [''}'', '''']"

text \<open>
  \<open>generate_interface\<close> with the Visited Set passed in and returned, and the loop over the
  properties that generates the dependencies first.
\<close>

function generate_interface ::
    "definitions \<Rightarrow> string \<Rightarrow> schema_node \<Rightarrow> string set \<Rightarrow> block list \<times> string set"
  and generate_dependencies ::
    "definitions \<Rightarrow> (string \<times> field_desc) list \<Rightarrow> string set \<Rightarrow> block list \<times> string set"
where
  "generate_interface defs model_name model_def processed =
     (if model_name \<in> processed then ([], processed)
      else if get_properties model_def = [] then ([], insert model_name processed)
      else (let deps = generate_dependencies defs (get_properties model_def)
                         (insert model_name processed)
            in (fst deps @ [(model_name, interface_lines model_name model_def)], snd deps)))"
| "generate_dependencies defs [] processed = ([], processed)"
| "generate_dependencies defs ((prop_name, prop_details) # rest) processed =
     (let r1 = (case lookup_ref defs (fd_ref prop_details) of
                  Some nd \<Rightarrow> generate_interface defs (fst nd) (snd nd) processed
                | None \<Rightarrow> ([], processed));
          r2 = (if fd_type prop_details = Some ''array''
                then (case lookup_ref defs (item_ref prop_details) of
                        Some nd \<Rightarrow> generate_interface defs (fst nd) (snd nd) (snd r1)
                      | None \<Rightarrow> ([], snd r1))
                else ([], snd r1));
          r3 = generate_dependencies defs rest (snd r2)
      in (fst r1 @ fst r2 @ fst r3, snd r3))"
  by pat_completeness auto

lemma processed_grows_partial:
  "generate_interface_generate_dependencies_dom (Inl (defs, n, d, P))
     \<Longrightarrow> P \<subseteq> snd (generate_interface defs n d P)"
  "generate_interface_generate_dependencies_dom (Inr (defs, fs, P))
     \<Longrightarrow> P \<subseteq> snd (generate_dependencies defs fs P)"
proof (induct defs n d P and defs fs P rule: generate_interface_generate_dependencies.pinduct)
  case (1 defs model_name model_def processed)
  then show ?case
    by (auto simp: generate_interface.psimps Let_def)
next
  case (2 defs processed)
  then show ?case by (simp add: generate_dependencies.psimps)
next
  case (3 defs prop_name prop_details rest processed)
  define r1 where "r1 = (case lookup_ref defs (fd_ref prop_details) of
                  Some nd \<Rightarrow> generate_interface defs (fst nd) (snd nd) processed
                | None \<Rightarrow> ([], processed))"
  define r2 where "r2 = (if fd_type prop_details = Some ''array''
                then (case lookup_ref defs (item_ref prop_details) of
                        Some nd \<Rightarrow> generate_interface defs (fst nd) (snd nd) (snd r1)
                      | None \<Rightarrow> ([], snd r1))
                else ([], snd r1))"
  have s1: "processed \<subseteq> snd r1"
    using 3(2) by (auto simp: r1_def split: option.splits)
  have s2: "snd r1 \<subseteq> snd r2"
    using 3(3)[OF r1_def] by (auto simp: r2_def split: option.splits)
  have s3: "snd r2 \<subseteq> snd (generate_dependencies defs rest (snd r2))"
    using 3(4)[OF r1_def r2_def] .
  have "snd (generate_dependencies defs ((prop_name, prop_details) # rest) processed)
        = snd (generate_dependencies defs rest (snd r2))"
    using 3(1) unfolding r1_def r2_def by (simp add: generate_dependencies.psimps Let_def)
  then show ?case using s1 s2 s3 by auto
qed

lemma lookup_ref_dom: "lookup_ref defs r = Some nd \<Longrightarrow> fst nd \<in> dom (map_of defs)"
  by (auto simp: lookup_ref_def split: option.splits if_splits)

lemma card_unvisited_less:
  "n \<in> dom (map_of defs) \<Longrightarrow> n \<notin> P
     \<Longrightarrow> card (dom (map_of defs) - insert n P) < card (dom (map_of defs) - P)"
  by (rule psubset_card_mono) (auto simp: finite_dom_map_of)

lemma card_unvisited_mono:
  "P \<subseteq> Q \<Longrightarrow> card (dom (map_of defs) - Q) \<le> card (dom (map_of defs) - P)"
  by (rule card_mono) (auto simp: finite_dom_map_of)

lemma visit_decreases:
  assumes "n \<in> dom (map_of defs)" "P \<subseteq> Q"
  shows "card (dom (map_of defs) - insert n Q) < card (dom (map_of defs) - P)
       \<or> (card (dom (map_of defs) - insert n Q) = card (dom (map_of defs) - P) \<and> n \<in> Q)"
proof (cases "n \<in> Q")
  case True
  then show ?thesis
    using card_unvisited_mono[OF assms(2), of defs] by (auto simp: insert_absorb)
next
  case False
  then show ?thesis
    using card_unvisited_less[OF assms(1) False] card_unvisited_mono[OF assms(2), of defs]
    by auto
qed

lemma visit_grows_partial:
  assumes "\<And>nd. lookup_ref defs r = Some nd \<Longrightarrow>
             generate_interface_generate_dependencies_dom (Inl (defs, fst nd, snd nd, P))"
  shows "P \<subseteq> snd (case lookup_ref defs r of
                     None \<Rightarrow> ([], P)
                   | Some nd \<Rightarrow> generate_interface defs (fst nd) (snd nd) P)"
proof (cases "lookup_ref defs r")
  case None
  then show ?thesis by simp
next
  case (Some nd)
  then show ?thesis using processed_grows_partial(1)[OF assms[OF Some]] by simp
qed

text \<open>
  Termination: every call that marks a name of the table shrinks the set of unvisited names
  of the table; a call on a visited name returns at once; the loop shortens its list.
\<close>

lemma generation_terminates: "All generate_interface_generate_dependencies_dom"
proof (relation "inv_image (less_than <*lex*> less_than <*lex*> less_than)
     (\<lambda>x. case x of
         Inl (defs, n, d, P) \<Rightarrow>
           (card (dom (map_of defs) - insert n P), if n \<in> P then 0 else (1::nat), 0::nat)
       | Inr (defs, fs, P) \<Rightarrow>
           (card (dom (map_of defs) - P), 0::nat, Suc (length fs)))", goal_cases)
  case 1
  show ?case by (intro wf_inv_image wf_lex_prod wf_less_than)
next
  case (2 defs model_name model_def processed)
  then show ?case by simp
next
  case (3 defs prop_name prop_details rest processed nd)
  then show ?case
    using visit_decreases[OF lookup_ref_dom[OF 3], of processed processed]
    by auto
next
  case (4 defs prop_name prop_details rest processed r1 nd)
  have "processed \<subseteq> snd r1"
    unfolding 4(1) by (rule visit_grows_partial) (rule 4(4))
  then show ?case
    using visit_decreases[OF lookup_ref_dom[OF 4(3)], of processed "snd r1"]
    by auto
next
  case (5 defs prop_name prop_details rest processed r1 r2)
  have s1: "processed \<subseteq> snd r1"
    unfolding 5(1) by (rule visit_grows_partial) (rule 5(4))
  have s2: "snd r1 \<subseteq> snd r2"
  proof (cases "fd_type prop_details = Some ''array''")
    case True
    have "snd r1 \<subseteq> snd (case lookup_ref defs (item_ref prop_details) of
                     None \<Rightarrow> ([], snd r1)
                   | Some nd \<Rightarrow> generate_interface defs (fst nd) (snd nd) (snd r1))"
      by (rule visit_grows_partial) (rule 5(3)[OF True])
    then show ?thesis using True 5(2) by simp
  next
    case False
    then show ?thesis using 5(2) by simp
  qed
  have "processed \<subseteq> snd r2" using s1 s2 by blast
  from card_unvisited_mono[OF this, of defs] show ?case by auto
qed

termination generate_interface
  by (rule generation_terminates)

section \<open>The generation run\<close>

text \<open>
  The loop of \<open>main\<close> over the requested model names, threading the one Visited Set of the
  run through every call.
\<close>

fun generate_models :: "definitions \<Rightarrow> string list \<Rightarrow> string set \<Rightarrow> block list \<times> string set" where
  "generate_models defs [] processed = ([], processed)"
| "generate_models defs (model_name # rest) processed =
     (case map_of defs model_name of
        Some model_def \<Rightarrow>
          (let r = generate_interface defs model_name model_def processed;
               rs = generate_models defs rest (snd r)
           in (fst r @ fst rs, snd rs))
      | None \<Rightarrow> generate_models defs rest processed)"

text \<open>A run: the Visited Set is created empty, then the loop.\<close>

definition run :: "definitions \<Rightarrow> string list \<Rightarrow> block list \<times> string set" where
  "run defs models_to_generate = generate_models defs models_to_generate {}"

section \<open>References between definitions\<close>

text \<open>
  The names the dependency loop looks up for one property, in the order of the loop body:
  the property's own reference if it is non-empty, then, for a property of type
  \<open>array\<close>, the reference of its items if that is non-empty.
\<close>

definition field_refs :: "field_desc \<Rightarrow> string list" where
  "field_refs prop_details =
     (if or_empty (fd_ref prop_details) \<noteq> [] then [or_empty (fd_ref prop_details)] else [])
     @ (if fd_type prop_details = Some ''array'' \<and> or_empty (item_ref prop_details) \<noteq> []
        then [or_empty (item_ref prop_details)] else [])"

definition referenced_names :: "(string \<times> field_desc) list \<Rightarrow> string list" where
  "referenced_names props = concat (map (\<lambda>p. field_refs (snd p)) props)"

text \<open>
  \<open>D\<close> references \<open>E\<close>: \<open>D\<close> is in the table and one of its properties refers to
  \<open>E\<close>, directly or as the items of an array.
\<close>

definition references :: "definitions \<Rightarrow> string \<Rightarrow> string \<Rightarrow> bool" where
  "references defs D E =
     (case map_of defs D of
        None \<Rightarrow> False
      | Some model_def \<Rightarrow> E \<in> set (referenced_names (get_properties model_def)))"

text \<open>\<open>a\<close> reaches \<open>b\<close> along references (in zero or more steps).\<close>

definition depends_on :: "definitions \<Rightarrow> string \<Rightarrow> string \<Rightarrow> bool" where
  "depends_on defs a b = ((a, b) \<in> {(x, y). references defs x y}\<^sup>*)"

text \<open>Some occurrence of \<open>e\<close> in the list is strictly before some occurrence of \<open>d\<close>.\<close>

fun appears_before :: "'a \<Rightarrow> 'a \<Rightarrow> 'a list \<Rightarrow> bool" where
  "appears_before e d [] = False"
| "appears_before e d (x # xs) = ((x = e \<and> d \<in> set xs) \<or> appears_before e d xs)"

section \<open>Invariant of the traversal\<close>

text \<open>The guarded call of the dependency loop: look the reference up, recurse if it is there.\<close>

definition visit :: "definitions \<Rightarrow> string option \<Rightarrow> string set \<Rightarrow> block list \<times> string set" where
  "visit defs r processed =
     (case lookup_ref defs r of
        Some nd \<Rightarrow> generate_interface defs (fst nd) (snd nd) processed
      | None \<Rightarrow> ([], processed))"

text \<open>
  What a call that takes the Visited Set from \<open>P\<close> to \<open>P'\<close> and returns the blocks
  \<open>bs\<close> guarantees: the set only grows, by names of the table; the blocks are declarations
  of distinct names visited by this call; every reference of a declared name has been
  visited; a referenced name is declared earlier, or not declared, or reaches the declared
  name; and every name visited by this call that has properties is declared.
\<close>

definition visit_inv :: "definitions \<Rightarrow> string set \<Rightarrow> block list \<Rightarrow> string set \<Rightarrow> bool" where
  "visit_inv defs P bs P' \<longleftrightarrow>
     P \<subseteq> P'
   \<and> set (emitted_names bs) \<subseteq> P' - P
   \<and> distinct (emitted_names bs)
   \<and> P' - P \<subseteq> dom (map_of defs)
   \<and> (\<forall>D \<in> set (emitted_names bs). \<forall>E. references defs D E \<and> E \<in> dom (map_of defs) \<longrightarrow> E \<in> P')
   \<and> (\<forall>D \<in> set (emitted_names bs). \<forall>E. references defs D E \<and> E \<in> dom (map_of defs) \<longrightarrow>
         appears_before E D (emitted_names bs) \<or> E \<notin> set (emitted_names bs) \<or> depends_on defs E D)
   \<and> (\<forall>n \<in> P' - P. \<forall>d. map_of defs n = Some d \<and> get_properties d \<noteq> [] \<longrightarrow>
         n \<in> set (emitted_names bs))
   \<and> (\<forall>b \<in> set bs. \<exists>d. map_of defs (fst b) = Some d \<and> get_properties d \<noteq> []
         \<and> snd b = interface_lines (fst b) d)"

text \<open>
  The calls on the names \<open>rs\<close> visit each of them that is in the table, and visit only
  names reachable from them.
\<close>

definition covers :: "definitions \<Rightarrow> string list \<Rightarrow> string set \<Rightarrow> string set \<Rightarrow> bool" where
  "covers defs rs P P' \<longleftrightarrow>
     (\<forall>r \<in> set rs. r \<in> dom (map_of defs) \<longrightarrow> r \<in> P')
   \<and> (\<forall>n \<in> P' - P. \<exists>r \<in> set rs. r \<in> dom (map_of defs) \<and> depends_on defs r n)"

section \<open>Example tables\<close>

text \<open>Two definitions that reference each other.\<close>

definition cycle_defs :: definitions where
  "cycle_defs =
     [(''A'', \<lparr>properties = Some [(''b'', FieldDesc None None (Some ''B'') None None None)],
               required = None, description = None\<rparr>),
      (''B'', \<lparr>properties = Some [(''a'', FieldDesc None None (Some ''A'') None None None)],
               required = None, description = None\<rparr>)]"

text \<open>
  An appointment with a reference to a client and an array of notes; \<open>Note\<close> is not in
  the table.
\<close>

definition client_defs :: definitions where
  "client_defs =
     [(''Client'',
       \<lparr>properties = Some [(''Id'', FieldDesc (Some ''integer'') None None None None None),
                           (''Name'', FieldDesc (Some ''string'') None None None None None)],
        required = Some [''Id''], description = None\<rparr>),
      (''Appointment'',
       \<lparr>properties = Some [(''Id'', FieldDesc (Some ''integer'') None None None None None),
                           (''Client'', FieldDesc None None (Some ''Client'') None None None),
                           (''Notes'', FieldDesc (Some ''array'') None None
                              (Some (FieldDesc None None (Some ''Note'') None None None)) None None)],
        required = Some [''Id''], description = None\<rparr>)]"

section \<open>Properties of the string operations\<close>

lemma str_split_nonempty: "str_split s c \<noteq> []"
  by (induction s) (auto split: list.splits)

lemma str_split_no_sep: "c \<notin> set s \<Longrightarrow> str_split s c = [s]"
  by (induction s) auto

lemma str_split_length: "length (str_split s c) = Suc (length (filter (\<lambda>x. x = c) s))"
  by (induction s) (auto split: list.splits simp: str_split_nonempty)

lemma str_split_last_append: "last (str_split (p @ c # s) c) = last (str_split s c)"
proof (induction p)
  case Nil
  then show ?case by (simp add: str_split_nonempty)
next
  case (Cons x p)
  show ?case
  proof (cases "x = c")
    case True
    then show ?thesis using Cons by (simp add: str_split_nonempty)
  next
    case False
    obtain w ws where sp: "str_split (p @ c # s) c = w # ws"
      using str_split_nonempty[of "p @ c # s" c] by (cases "str_split (p @ c # s) c") auto
    have "length (str_split (p @ c # s) c) \<ge> 2"
      by (simp add: str_split_length)
    then have "ws \<noteq> []" using sp by auto
    then show ?thesis using Cons sp False by simp
  qed
qed

lemma last_segment_no_dot: "CHR ''.'' \<notin> set (last_segment name)"
proof (cases "CHR ''.'' \<in> set name")
  case True
  then obtain p s where "name = p @ CHR ''.'' # s" "CHR ''.'' \<notin> set s"
    by (auto dest: split_list_last)
  then show ?thesis
    by (simp add: last_segment_def str_split_last_append str_split_no_sep)
next
  case False
  then show ?thesis by (simp add: last_segment_def str_split_no_sep)
qed

lemma last_segment_qualified:
  "CHR ''.'' \<notin> set s \<Longrightarrow> last_segment (p @ ''.'' @ s) = s"
  by (simp add: last_segment_def str_split_last_append str_split_no_sep)

lemma last_segment_unqualified:
  "CHR ''.'' \<notin> set s \<Longrightarrow> last_segment s = s"
  by (simp add: last_segment_def str_split_no_sep)

lemma last_segment_cases:
  "name = last_segment name \<or> (\<exists>p. name = p @ ''.'' @ last_segment name)"
proof (cases "CHR ''.'' \<in> set name")
  case True
  then obtain p s where ps: "name = p @ CHR ''.'' # s" "CHR ''.'' \<notin> set s"
    by (auto dest: split_list_last)
  then have "last_segment name = s"
    by (simp add: last_segment_def str_split_last_append str_split_no_sep)
  then show ?thesis using ps by auto
next
  case False
  then show ?thesis by (simp add: last_segment_unqualified)
qed

section \<open>Type Mapper: resolution order\<close>

lemma mapper_ref:
  "or_empty prop_ref \<noteq> [] \<Longrightarrow>
     swagger_type_to_typescript prop_type prop_format prop_ref prop_items enum
       = last_segment (or_empty prop_ref)"
  by simp

lemma mapper_enum:
  "or_empty prop_ref = [] \<Longrightarrow> or_empty enum \<noteq> [] \<Longrightarrow>
     swagger_type_to_typescript prop_type prop_format prop_ref prop_items enum
       = str_join '' | '' (map quoted (or_empty enum))"
  by simp

lemma mapper_array:
  "or_empty prop_ref = [] \<Longrightarrow> or_empty enum = [] \<Longrightarrow>
     swagger_type_to_typescript (Some ''array'') prop_format prop_ref prop_items enum
       = (case prop_items of
            None \<Rightarrow> ''unknown[]''
          | Some items \<Rightarrow>
              if items = empty_desc then ''unknown[]''
              else if or_empty (fd_ref items) \<noteq> []
                then last_segment (or_empty (fd_ref items)) @ ''[]''
              else swagger_type_to_typescript
                     (Some (case fd_type items of None \<Rightarrow> ''unknown'' | Some t \<Rightarrow> t))
                     (fd_format items) None None None @ ''[]'')"
  by simp

lemma mapper_primitive:
  "or_empty prop_ref = [] \<Longrightarrow> or_empty enum = [] \<Longrightarrow> prop_type \<noteq> Some ''array'' \<Longrightarrow>
     swagger_type_to_typescript prop_type prop_format prop_ref prop_items enum
       = base_type_of prop_type"
  by (simp add: Let_def)

declare swagger_type_to_typescript.simps [simp del]

lemma mapper_array_suffix:
  assumes "or_empty prop_ref = []" "or_empty enum = []"
  shows "\<exists>item_type. swagger_type_to_typescript (Some ''array'') prop_format prop_ref prop_items enum
                        = item_type @ ''[]''"
  unfolding mapper_array[OF assms]
  by (cases prop_items) auto

text \<open>
  C4. The Type Mapper resolves a descriptor by a fixed priority, first match wins. A present
  reference (a non-empty string, which is what the source tests) renders as the final
  \<open>.\<close>-separated segment of the referenced name, whatever the kind, format, items and enum
  values are. Otherwise present enum values (a non-empty list) render as the quoted literals
  joined by \<open>|\<close> in input order. Otherwise the array kind is rendered from the items
  alone and ends in \<open>[]\<close>. Otherwise the primitive kind is looked up in the table, and
  the format changes nothing.
\<close>

theorem type_mapper_priority:
  "(or_empty prop_ref \<noteq> [] \<longrightarrow>
      swagger_type_to_typescript prop_type prop_format prop_ref prop_items enum
        = last_segment (or_empty prop_ref)
      \<and> CHR ''.'' \<notin> set (last_segment (or_empty prop_ref))
      \<and> (or_empty prop_ref = last_segment (or_empty prop_ref)
           \<or> (\<exists>p. or_empty prop_ref = p @ ''.'' @ last_segment (or_empty prop_ref))))
   \<and> (or_empty prop_ref = [] \<and> or_empty enum \<noteq> [] \<longrightarrow>
      swagger_type_to_typescript prop_type prop_format prop_ref prop_items enum
        = str_join '' | '' (map quoted (or_empty enum)))
   \<and> (or_empty prop_ref = [] \<and> or_empty enum = [] \<and> prop_type = Some ''array'' \<longrightarrow>
      swagger_type_to_typescript prop_type prop_format prop_ref prop_items enum
        = swagger_type_to_typescript (Some ''array'') None None prop_items None
      \<and> (\<exists>item_type. swagger_type_to_typescript prop_type prop_format prop_ref prop_items enum
                          = item_type @ ''[]''))
   \<and> (or_empty prop_ref = [] \<and> or_empty enum = [] \<and> prop_type \<noteq> Some ''array'' \<longrightarrow>
      swagger_type_to_typescript prop_type prop_format prop_ref prop_items enum
        = base_type_of prop_type)"
proof (intro conjI impI; (elim conjE)?)
  assume "or_empty prop_ref \<noteq> []"
  then show "swagger_type_to_typescript prop_type prop_format prop_ref prop_items enum
        = last_segment (or_empty prop_ref)" by (rule mapper_ref)
next
  show "CHR ''.'' \<notin> set (last_segment (or_empty prop_ref))" by (rule last_segment_no_dot)
next
  show "or_empty prop_ref = last_segment (or_empty prop_ref)
           \<or> (\<exists>p. or_empty prop_ref = p @ ''.'' @ last_segment (or_empty prop_ref))"
    by (rule last_segment_cases)
next
  assume "or_empty prop_ref = []" "or_empty enum \<noteq> []"
  then show "swagger_type_to_typescript prop_type prop_format prop_ref prop_items enum
        = str_join '' | '' (map quoted (or_empty enum))" by (rule mapper_enum)
next
  assume a: "or_empty prop_ref = []" "or_empty enum = []" "prop_type = Some ''array''"
  show "swagger_type_to_typescript prop_type prop_format prop_ref prop_items enum
        = swagger_type_to_typescript (Some ''array'') None None prop_items None"
    unfolding a(3) by (simp add: mapper_array[OF a(1,2)] mapper_array)
next
  assume a: "or_empty prop_ref = []" "or_empty enum = []" "prop_type = Some ''array''"
  show "\<exists>item_type. swagger_type_to_typescript prop_type prop_format prop_ref prop_items enum
                          = item_type @ ''[]''"
    unfolding a(3) by (rule mapper_array_suffix[OF a(1,2)])
next
  assume "or_empty prop_ref = []" "or_empty enum = []" "prop_type \<noteq> Some ''array''"
  then show "swagger_type_to_typescript prop_type prop_format prop_ref prop_items enum
        = base_type_of prop_type" by (rule mapper_primitive)
qed

text \<open>
  The four rules at descriptors that carry several markers at once: reference, enum values
  and array kind together; enum values and array kind; array kind with a format; a string
  with the date-time format.
\<close>

theorem type_mapper_priority_witness:
  "swagger_type_to_typescript (Some ''array'') (Some ''date-time'') (Some ''Models.V6.Foo'')
      (Some (FieldDesc (Some ''string'') None None None None None)) (Some [''A'', ''B''])
     = ''Foo''
   \<and> swagger_type_to_typescript (Some ''array'') None None
      (Some (FieldDesc (Some ''string'') None None None None None)) (Some [''A'', ''B''])
     = [CHR 0x22] @ ''A'' @ [CHR 0x22] @ '' | '' @ [CHR 0x22] @ ''B'' @ [CHR 0x22]
   \<and> swagger_type_to_typescript (Some ''array'') (Some ''date-time'') None
      (Some (FieldDesc (Some ''string'') None None None None None)) None
     = ''string[]''
   \<and> swagger_type_to_typescript (Some ''string'') (Some ''date-time'') None None None
     = ''string''"
proof -
  have "swagger_type_to_typescript (Some ''array'') (Some ''date-time'') (Some ''Models.V6.Foo'')
      (Some (FieldDesc (Some ''string'') None None None None None)) (Some [''A'', ''B''])
     = ''Foo''"
    using type_mapper_priority[where prop_ref = "Some ''Models.V6.Foo''" and prop_type = "Some ''array''"
        and prop_format = "Some ''date-time''"
        and prop_items = "Some (FieldDesc (Some ''string'') None None None None None)"
        and enum = "Some [''A'', ''B'']"]
    by (simp add: last_segment_def)
  moreover have "swagger_type_to_typescript (Some ''array'') None None
      (Some (FieldDesc (Some ''string'') None None None None None)) (Some [''A'', ''B''])
     = [CHR 0x22] @ ''A'' @ [CHR 0x22] @ '' | '' @ [CHR 0x22] @ ''B'' @ [CHR 0x22]"
    using type_mapper_priority[where prop_ref = None and prop_type = "Some ''array''"
        and prop_format = None
        and prop_items = "Some (FieldDesc (Some ''string'') None None None None None)"
        and enum = "Some [''A'', ''B'']"]
    by (simp add: quoted_def)
  moreover have "swagger_type_to_typescript (Some ''array'') (Some ''date-time'') None
      (Some (FieldDesc (Some ''string'') None None None None None)) None
     = ''string[]''"
    using type_mapper_priority[where prop_ref = None and prop_type = "Some ''array''"
        and prop_format = "Some ''date-time''"
        and prop_items = "Some (FieldDesc (Some ''string'') None None None None None)"
        and enum = None]
    by (simp add: mapper_array mapper_primitive empty_desc_def base_type_of_def type_map_def)
  moreover have "swagger_type_to_typescript (Some ''string'') (Some ''date-time'') None None None
     = ''string''"
    using type_mapper_priority[where prop_ref = None and prop_type = "Some ''string''"
        and prop_format = "Some ''date-time''" and prop_items = None and enum = None]
    by (simp add: base_type_of_def type_map_def)
  ultimately show ?thesis by blast
qed

section \<open>Declaration Builder: the three cases of \<open>generate_interface\<close>\<close>

lemma generate_interface_visited:
  "model_name \<in> processed \<Longrightarrow>
     generate_interface defs model_name model_def processed = ([], processed)"
  by simp

lemma generate_interface_empty:
  "model_name \<notin> processed \<Longrightarrow> get_properties model_def = [] \<Longrightarrow>
     generate_interface defs model_name model_def processed = ([], insert model_name processed)"
  by simp

lemma generate_interface_fresh:
  "model_name \<notin> processed \<Longrightarrow> get_properties model_def \<noteq> [] \<Longrightarrow>
     generate_interface defs model_name model_def processed =
       (fst (generate_dependencies defs (get_properties model_def) (insert model_name processed))
          @ [(model_name, interface_lines model_name model_def)],
        snd (generate_dependencies defs (get_properties model_def) (insert model_name processed)))"
  by (simp add: Let_def)

declare generate_interface.simps [simp del]

section \<open>Array items\<close>

text \<open>
  C5. For an array the Type Mapper calls itself on the item descriptor, but hands over only
  the item's kind and format. The items of an item that is itself an array are therefore
  never read: an array of arrays of strings renders as \<open>unknown[][]\<close>, while mapping the
  item descriptor itself and adding \<open>[]\<close> gives \<open>string[][]\<close>.
\<close>

theorem nested_array_items_dropped:
  "swagger_type_to_typescript (Some ''array'') None None
     (Some (FieldDesc (Some ''array'') None None
        (Some (FieldDesc (Some ''string'') None None None None None)) None None)) None
     = ''unknown[][]''
   \<and> ts_type_of (FieldDesc (Some ''array'') None None
        (Some (FieldDesc (Some ''string'') None None None None None)) None None) @ ''[]''
     = ''string[][]''"
  by (simp add: ts_type_of_def mapper_array mapper_primitive empty_desc_def base_type_of_def type_map_def)

section \<open>Documentation comments\<close>

text \<open>
  C8. The description of a field is cleaned (line breaks become spaces, surrounding
  whitespace is removed) before it is written; the description of the declaration is written
  as it is. Here both descriptions are the same text with a leading space, a line feed in
  the middle and a trailing space.
\<close>

theorem declaration_description_not_normalized:
  "interface_lines ''Models.Visit''
     \<lparr>properties = Some [(''Id'', FieldDesc (Some ''integer'') None None None None
                                   (Some ('' first'' @ [CHR 0x0A] @ ''second '')))],
      required = None,
      description = Some ('' first'' @ [CHR 0x0A] @ ''second '')\<rparr>
   = [''/**'',
      '' * '' @ '' first'' @ [CHR 0x0A] @ ''second '',
      '' */'',
      ''export interface Visit {'',
      ''  /** first second */'',
      ''  Id?: number;'',
      ''}'',
      '''']"
  by (simp add: interface_lines_def get_properties_def sorted_items_def field_lines_def
      optional_marker_def ts_type_of_def mapper_primitive base_type_of_def type_map_def
      last_segment_def clean_desc_def str_replace_def str_strip_def isspace_def)

section \<open>Field order\<close>






section \<open>Optional marker\<close>

lemma field_lines_last:
  "last (field_lines required_fields (prop_name, prop_details))
     = ''  '' @ prop_name @ optional_marker required_fields prop_name @ '': ''
         @ ts_type_of prop_details @ '';''"
  by (simp add: field_lines_def)

lemma field_line_in_interface_lines:
  assumes "(prop_name, prop_details) \<in> set (get_properties model_def)"
  shows "(''  '' @ prop_name @ optional_marker (or_empty (required model_def)) prop_name @ '': ''
            @ ts_type_of prop_details @ '';'')
         \<in> set (interface_lines model_name model_def)"
proof -
  have "(prop_name, prop_details) \<in> set (sorted_items (get_properties model_def))"
    using assms by (simp add: sorted_items_def)
  moreover have "(''  '' @ prop_name @ optional_marker (or_empty (required model_def)) prop_name @ '': ''
            @ ts_type_of prop_details @ '';'')
         \<in> set (field_lines (or_empty (required model_def)) (prop_name, prop_details))"
    by (simp add: field_lines_def)
  ultimately show ?thesis
    unfolding interface_lines_def by auto
qed

lemma own_block_emitted:
  assumes "model_name \<notin> processed" "get_properties model_def \<noteq> []"
  shows "(model_name, interface_lines model_name model_def)
           \<in> set (fst (generate_interface defs model_name model_def processed))"
  by (simp add: generate_interface_fresh[OF assms])

lemma lines_of_member:
  "(n, ls) \<in> set bs \<Longrightarrow> l \<in> set ls \<Longrightarrow> l \<in> set (lines_of bs)"
  by (force simp: lines_of_def)

text \<open>
  C7. When a definition that is not yet visited is generated, each of its fields has its
  field line in the output, and that line (the last line the loop body appends for the
  field) carries \<open>?\<close> after the field name exactly when the name is not in the required
  list: the marker is \<open>?\<close> iff the name is not required, and empty iff it is.
\<close>

theorem optional_marker_iff_not_required:
  assumes "model_name \<notin> processed"
    and "(prop_name, prop_details) \<in> set (get_properties model_def)"
  shows "(''  '' @ prop_name
            @ (if prop_name \<in> set (or_empty (required model_def)) then [] else ''?'')
            @ '': '' @ ts_type_of prop_details @ '';'')
           \<in> set (lines_of (fst (generate_interface defs model_name model_def processed)))
         \<and> last (field_lines (or_empty (required model_def)) (prop_name, prop_details))
           = ''  '' @ prop_name
               @ (if prop_name \<in> set (or_empty (required model_def)) then [] else ''?'')
               @ '': '' @ ts_type_of prop_details @ '';''
         \<and> (optional_marker (or_empty (required model_def)) prop_name = ''?''
              \<longleftrightarrow> prop_name \<notin> set (or_empty (required model_def)))
         \<and> (optional_marker (or_empty (required model_def)) prop_name = []
              \<longleftrightarrow> prop_name \<in> set (or_empty (required model_def)))"
proof -
  have ne: "get_properties model_def \<noteq> []" using assms(2) by auto
  have "(''  '' @ prop_name @ optional_marker (or_empty (required model_def)) prop_name @ '': ''
            @ ts_type_of prop_details @ '';'')
         \<in> set (lines_of (fst (generate_interface defs model_name model_def processed)))"
    by (rule lines_of_member[OF own_block_emitted[OF assms(1) ne]
          field_line_in_interface_lines[OF assms(2)]])
  then show ?thesis
    by (simp add: optional_marker_def field_lines_last)
qed

text \<open>A required field \<open>Id\<close> and a field \<open>Start\<close> that is not required.\<close>

theorem optional_marker_iff_not_required_witness:
  "''  Id: number;'' \<in> set (lines_of (fst (generate_interface []
       ''M.Visit''
       \<lparr>properties = Some [(''Start'', FieldDesc (Some ''string'') None None None None None),
                           (''Id'', FieldDesc (Some ''integer'') None None None None None)],
        required = Some [''Id''], description = None\<rparr> {})))
   \<and> ''  Start?: string;'' \<in> set (lines_of (fst (generate_interface []
       ''M.Visit''
       \<lparr>properties = Some [(''Start'', FieldDesc (Some ''string'') None None None None None),
                           (''Id'', FieldDesc (Some ''integer'') None None None None None)],
        required = Some [''Id''], description = None\<rparr> {})))"
proof -
  let ?start = "FieldDesc (Some ''string'') None None None None None"
  let ?id = "FieldDesc (Some ''integer'') None None None None None"
  let ?d = "\<lparr>properties = Some [(''Start'', ?start), (''Id'', ?id)],
             required = Some [''Id''], description = None\<rparr>"
  have v: "''M.Visit'' \<notin> ({} :: string set)" by simp
  have a: "(''Id'', ?id) \<in> set (get_properties ?d)" by (simp add: get_properties_def)
  have b: "(''Start'', ?start) \<in> set (get_properties ?d)" by (simp add: get_properties_def)
  from optional_marker_iff_not_required[OF v a, of "[]"]
       optional_marker_iff_not_required[OF v b, of "[]"]
  show ?thesis
    by (simp add: ts_type_of_def mapper_primitive base_type_of_def type_map_def)
qed

lemma appears_before_append:
  "appears_before e d (xs @ ys) \<longleftrightarrow>
     appears_before e d xs \<or> (e \<in> set xs \<and> d \<in> set ys) \<or> appears_before e d ys"
  by (induction xs) auto

lemma appears_before_index:
  "appears_before e d xs \<longleftrightarrow> (\<exists>i j. i < j \<and> j < length xs \<and> xs ! i = e \<and> xs ! j = d)"
proof (induction xs)
  case Nil
  then show ?case by simp
next
  case (Cons x xs)
  show ?case
  proof
    assume "appears_before e d (x # xs)"
    then consider "x = e" "d \<in> set xs" | "appears_before e d xs" by auto
    then show "\<exists>i j. i < j \<and> j < length (x # xs) \<and> (x # xs) ! i = e \<and> (x # xs) ! j = d"
    proof cases
      case 1
      then obtain k where "k < length xs" "xs ! k = d" by (auto simp: in_set_conv_nth)
      then have "0 < Suc k \<and> Suc k < length (x # xs) \<and> (x # xs) ! 0 = e \<and> (x # xs) ! Suc k = d"
        using 1 by simp
      then show ?thesis by blast
    next
      case 2
      then obtain i j where "i < j" "j < length xs" "xs ! i = e" "xs ! j = d"
        using Cons.IH by blast
      then have "Suc i < Suc j \<and> Suc j < length (x # xs) \<and> (x # xs) ! Suc i = e \<and> (x # xs) ! Suc j = d"
        by simp
      then show ?thesis by blast
    qed
  next
    assume "\<exists>i j. i < j \<and> j < length (x # xs) \<and> (x # xs) ! i = e \<and> (x # xs) ! j = d"
    then obtain i j where ij: "i < j" "j < length (x # xs)" "(x # xs) ! i = e" "(x # xs) ! j = d"
      by blast
    then obtain j' where j': "j = Suc j'" by (cases j) auto
    show "appears_before e d (x # xs)"
    proof (cases i)
      case 0
      then have "x = e" "d \<in> set xs" using ij j' by auto
      then show ?thesis by simp
    next
      case (Suc i')
      then have "i' < j' \<and> j' < length xs \<and> xs ! i' = e \<and> xs ! j' = d" using ij j' by auto
      then have "appears_before e d xs" using Cons.IH by blast
      then show ?thesis by simp
    qed
  qed
qed

lemma visit_inv_empty: "visit_inv defs P [] P"
  by (simp add: visit_inv_def emitted_names_def)

lemma visit_inv_seq:
  assumes 1: "visit_inv defs P bs1 P1" and 2: "visit_inv defs P1 bs2 P2"
  shows "visit_inv defs P (bs1 @ bs2) P2"
proof -
  let ?n1 = "emitted_names bs1" and ?n2 = "emitted_names bs2"
  have names: "emitted_names (bs1 @ bs2) = ?n1 @ ?n2" by (simp add: emitted_names_def)
  have a1: "P \<subseteq> P1" and b1: "set ?n1 \<subseteq> P1 - P" and c1: "distinct ?n1"
    and g1: "P1 - P \<subseteq> dom (map_of defs)"
    and d1: "\<And>D E. D \<in> set ?n1 \<Longrightarrow> references defs D E \<Longrightarrow> E \<in> dom (map_of defs) \<Longrightarrow> E \<in> P1"
    and e1: "\<And>D E. D \<in> set ?n1 \<Longrightarrow> references defs D E \<Longrightarrow> E \<in> dom (map_of defs) \<Longrightarrow>
               appears_before E D ?n1 \<or> E \<notin> set ?n1 \<or> depends_on defs E D"
    and f1: "\<And>n d. n \<in> P1 - P \<Longrightarrow> map_of defs n = Some d \<Longrightarrow> get_properties d \<noteq> [] \<Longrightarrow> n \<in> set ?n1"
    and h1: "\<And>b. b \<in> set bs1 \<Longrightarrow> \<exists>d. map_of defs (fst b) = Some d \<and> get_properties d \<noteq> []
         \<and> snd b = interface_lines (fst b) d"
    using 1 unfolding visit_inv_def by blast+
  have a2: "P1 \<subseteq> P2" and b2: "set ?n2 \<subseteq> P2 - P1" and c2: "distinct ?n2"
    and g2: "P2 - P1 \<subseteq> dom (map_of defs)"
    and d2: "\<And>D E. D \<in> set ?n2 \<Longrightarrow> references defs D E \<Longrightarrow> E \<in> dom (map_of defs) \<Longrightarrow> E \<in> P2"
    and e2: "\<And>D E. D \<in> set ?n2 \<Longrightarrow> references defs D E \<Longrightarrow> E \<in> dom (map_of defs) \<Longrightarrow>
               appears_before E D ?n2 \<or> E \<notin> set ?n2 \<or> depends_on defs E D"
    and f2: "\<And>n d. n \<in> P2 - P1 \<Longrightarrow> map_of defs n = Some d \<Longrightarrow> get_properties d \<noteq> [] \<Longrightarrow> n \<in> set ?n2"
    and h2: "\<And>b. b \<in> set bs2 \<Longrightarrow> \<exists>d. map_of defs (fst b) = Some d \<and> get_properties d \<noteq> []
         \<and> snd b = interface_lines (fst b) d"
    using 2 unfolding visit_inv_def by blast+
  have A: "P \<subseteq> P2" using a1 a2 by blast
  have B: "set (?n1 @ ?n2) \<subseteq> P2 - P" using a1 a2 b1 b2 by auto
  have C: "distinct (?n1 @ ?n2)" using c1 c2 b1 b2 by auto
  have G: "P2 - P \<subseteq> dom (map_of defs)" using g1 g2 by blast
  have D: "\<forall>D \<in> set (?n1 @ ?n2). \<forall>E. references defs D E \<and> E \<in> dom (map_of defs) \<longrightarrow> E \<in> P2"
    using d1 d2 a2 unfolding set_append by blast
  have E: "\<forall>D \<in> set (?n1 @ ?n2). \<forall>E. references defs D E \<and> E \<in> dom (map_of defs) \<longrightarrow>
         appears_before E D (?n1 @ ?n2) \<or> E \<notin> set (?n1 @ ?n2) \<or> depends_on defs E D"
  proof (intro ballI allI impI)
    fix D E assume D: "D \<in> set (?n1 @ ?n2)" and r: "references defs D E \<and> E \<in> dom (map_of defs)"
    show "appears_before E D (?n1 @ ?n2) \<or> E \<notin> set (?n1 @ ?n2) \<or> depends_on defs E D"
    proof (cases "D \<in> set ?n1")
      case True
      have "E \<in> P1" using d1[OF True] r by blast
      then have "E \<notin> set ?n2" using b2 by blast
      then show ?thesis using e1[OF True] r unfolding appears_before_append set_append by blast
    next
      case False
      then have D2: "D \<in> set ?n2" using D by simp
      then show ?thesis using e2[OF D2] r unfolding appears_before_append set_append by blast
    qed
  qed
  have F: "\<forall>n \<in> P2 - P. \<forall>d. map_of defs n = Some d \<and> get_properties d \<noteq> [] \<longrightarrow>
         n \<in> set (?n1 @ ?n2)"
    using f1 f2 unfolding set_append by blast
  have H: "\<forall>b \<in> set (bs1 @ bs2). \<exists>d. map_of defs (fst b) = Some d \<and> get_properties d \<noteq> []
         \<and> snd b = interface_lines (fst b) d"
    using h1 h2 unfolding set_append by blast
  show ?thesis
    unfolding visit_inv_def names using A B C G D E F H by blast
qed

lemma depends_on_refl: "depends_on defs a a"
  by (simp add: depends_on_def)

lemma depends_on_step: "references defs a b \<Longrightarrow> depends_on defs b c \<Longrightarrow> depends_on defs a c"
  unfolding depends_on_def by (rule converse_rtrancl_into_rtrancl) auto

lemma covers_nil: "covers defs [] P P"
  by (simp add: covers_def)

lemma covers_absent: "r \<notin> dom (map_of defs) \<Longrightarrow> covers defs [r] P P"
  by (simp add: covers_def)

lemma covers_seq:
  assumes "covers defs rs1 P P1" "covers defs rs2 P1 P2" "P1 \<subseteq> P2"
  shows "covers defs (rs1 @ rs2) P P2"
proof -
  have 1: "\<And>r. r \<in> set rs1 \<Longrightarrow> r \<in> dom (map_of defs) \<Longrightarrow> r \<in> P1"
    and 2: "\<And>n. n \<in> P1 - P \<Longrightarrow> \<exists>r \<in> set rs1. r \<in> dom (map_of defs) \<and> depends_on defs r n"
    using assms(1) unfolding covers_def by blast+
  have 3: "\<And>r. r \<in> set rs2 \<Longrightarrow> r \<in> dom (map_of defs) \<Longrightarrow> r \<in> P2"
    and 4: "\<And>n. n \<in> P2 - P1 \<Longrightarrow> \<exists>r \<in> set rs2. r \<in> dom (map_of defs) \<and> depends_on defs r n"
    using assms(2) unfolding covers_def by blast+
  have A: "\<forall>r \<in> set (rs1 @ rs2). r \<in> dom (map_of defs) \<longrightarrow> r \<in> P2"
    using 1 3 assms(3) unfolding set_append by blast
  have B: "\<forall>n \<in> P2 - P. \<exists>r \<in> set (rs1 @ rs2). r \<in> dom (map_of defs) \<and> depends_on defs r n"
  proof
    fix n assume n: "n \<in> P2 - P"
    show "\<exists>r \<in> set (rs1 @ rs2). r \<in> dom (map_of defs) \<and> depends_on defs r n"
    proof (cases "n \<in> P1")
      case True
      then show ?thesis using 2[of n] n unfolding set_append by blast
    next
      case False
      then show ?thesis using 4[of n] n unfolding set_append by blast
    qed
  qed
  show ?thesis unfolding covers_def using A B by blast
qed

lemma lookup_ref_Some:
  "lookup_ref defs r = Some nd \<Longrightarrow>
     or_empty r \<noteq> [] \<and> fst nd = or_empty r \<and> map_of defs (or_empty r) = Some (snd nd)"
  by (auto simp: lookup_ref_def split: option.splits if_splits)

lemma lookup_ref_None:
  "lookup_ref defs r = None \<Longrightarrow> or_empty r = [] \<or> or_empty r \<notin> dom (map_of defs)"
  by (auto simp: lookup_ref_def split: option.splits if_splits)

lemma references_iff:
  "map_of defs name = Some d \<Longrightarrow>
     references defs name E \<longleftrightarrow> E \<in> set (referenced_names (get_properties d))"
  by (simp add: references_def)

lemma visit_inv_node:
  assumes look: "map_of defs name = Some d"
    and fresh: "name \<notin> P"
    and props: "get_properties d \<noteq> []"
    and inv: "visit_inv defs (insert name P) bs0 P'"
    and cov: "covers defs (referenced_names (get_properties d)) (insert name P) P'"
  shows "visit_inv defs P (bs0 @ [(name, interface_lines name d)]) P'"
    and "covers defs [name] P P'"
proof -
  let ?n0 = "emitted_names bs0"
  let ?bs = "bs0 @ [(name, interface_lines name d)]"
  have names: "emitted_names ?bs = ?n0 @ [name]" by (simp add: emitted_names_def)
  have a0: "insert name P \<subseteq> P'" and b0: "set ?n0 \<subseteq> P' - insert name P" and c0: "distinct ?n0"
    and g0: "P' - insert name P \<subseteq> dom (map_of defs)"
    and d0: "\<And>D E. D \<in> set ?n0 \<Longrightarrow> references defs D E \<Longrightarrow> E \<in> dom (map_of defs) \<Longrightarrow> E \<in> P'"
    and e0: "\<And>D E. D \<in> set ?n0 \<Longrightarrow> references defs D E \<Longrightarrow> E \<in> dom (map_of defs) \<Longrightarrow>
               appears_before E D ?n0 \<or> E \<notin> set ?n0 \<or> depends_on defs E D"
    and f0: "\<And>n d. n \<in> P' - insert name P \<Longrightarrow> map_of defs n = Some d \<Longrightarrow> get_properties d \<noteq> []
               \<Longrightarrow> n \<in> set ?n0"
    and h0: "\<And>b. b \<in> set bs0 \<Longrightarrow> \<exists>d. map_of defs (fst b) = Some d \<and> get_properties d \<noteq> []
         \<and> snd b = interface_lines (fst b) d"
    using inv unfolding visit_inv_def by blast+
  have k1: "\<And>r. r \<in> set (referenced_names (get_properties d)) \<Longrightarrow> r \<in> dom (map_of defs) \<Longrightarrow> r \<in> P'"
    and k2: "\<And>n. n \<in> P' - insert name P \<Longrightarrow>
               \<exists>r \<in> set (referenced_names (get_properties d)). r \<in> dom (map_of defs) \<and> depends_on defs r n"
    using cov unfolding covers_def by blast+
  have refs: "\<And>E. references defs name E \<longleftrightarrow> E \<in> set (referenced_names (get_properties d))"
    by (rule references_iff[OF look])
  have reach: "\<And>n. n \<in> P' - P \<Longrightarrow> depends_on defs name n"
  proof -
    fix n assume n: "n \<in> P' - P"
    show "depends_on defs name n"
    proof (cases "n = name")
      case True
      then show ?thesis by (simp add: depends_on_refl)
    next
      case False
      then obtain r where "r \<in> set (referenced_names (get_properties d))" "depends_on defs r n"
        using k2[of n] n by blast
      then show ?thesis using refs depends_on_step by blast
    qed
  qed
  have name_dom: "name \<in> dom (map_of defs)" using look by blast
  have A: "P \<subseteq> P'" using a0 by blast
  have B: "set (?n0 @ [name]) \<subseteq> P' - P" using a0 b0 fresh by auto
  have C: "distinct (?n0 @ [name])" using c0 b0 by auto
  have G: "P' - P \<subseteq> dom (map_of defs)" using g0 name_dom by blast
  have D: "\<forall>D \<in> set (?n0 @ [name]). \<forall>E. references defs D E \<and> E \<in> dom (map_of defs) \<longrightarrow> E \<in> P'"
  proof (intro ballI allI impI)
    fix D E assume D: "D \<in> set (?n0 @ [name])" and r: "references defs D E \<and> E \<in> dom (map_of defs)"
    show "E \<in> P'"
    proof (cases "D = name")
      case True
      then show ?thesis using r refs k1 by blast
    next
      case False
      then have "D \<in> set ?n0" using D by simp
      then show ?thesis using d0 r by blast
    qed
  qed
  have E: "\<forall>D \<in> set (?n0 @ [name]). \<forall>E. references defs D E \<and> E \<in> dom (map_of defs) \<longrightarrow>
         appears_before E D (?n0 @ [name]) \<or> E \<notin> set (?n0 @ [name]) \<or> depends_on defs E D"
  proof (intro ballI allI impI)
    fix D E assume D: "D \<in> set (?n0 @ [name])" and r: "references defs D E \<and> E \<in> dom (map_of defs)"
    show "appears_before E D (?n0 @ [name]) \<or> E \<notin> set (?n0 @ [name]) \<or> depends_on defs E D"
    proof (cases "D = name")
      case True
      show ?thesis
      proof (cases "E \<in> set ?n0")
        case True
        then have "appears_before E D (?n0 @ [name])"
          using \<open>D = name\<close> by (simp add: appears_before_append)
        then show ?thesis by blast
      next
        case False
        show ?thesis
        proof (cases "E = name")
          case True
          then show ?thesis using \<open>D = name\<close> by (simp add: depends_on_refl)
        next
          case False
          then show ?thesis using \<open>E \<notin> set ?n0\<close> by simp
        qed
      qed
    next
      case False
      then have D0: "D \<in> set ?n0" using D by simp
      then have Dnew: "D \<in> P' - P" using b0 by blast
      show ?thesis
      proof (cases "E = name")
        case True
        then show ?thesis using reach[OF Dnew] by blast
      next
        case False
        then show ?thesis using e0[OF D0] r by (auto simp: appears_before_append)
      qed
    qed
  qed
  have F: "\<forall>n \<in> P' - P. \<forall>d. map_of defs n = Some d \<and> get_properties d \<noteq> [] \<longrightarrow>
         n \<in> set (?n0 @ [name])"
  proof (intro ballI allI impI)
    fix n d' assume n: "n \<in> P' - P" and "map_of defs n = Some d' \<and> get_properties d' \<noteq> []"
    then show "n \<in> set (?n0 @ [name])"
      using f0[of n d'] by (cases "n = name") auto
  qed
  have H: "\<forall>b \<in> set ?bs. \<exists>d. map_of defs (fst b) = Some d \<and> get_properties d \<noteq> []
         \<and> snd b = interface_lines (fst b) d"
    using h0 look props by auto
  show "visit_inv defs P ?bs P'"
    unfolding visit_inv_def names using A B C G D E F H by blast
  show "covers defs [name] P P'"
    unfolding covers_def using a0 reach name_dom by auto
qed

lemma generate_dependencies_Cons:
  "generate_dependencies defs ((prop_name, prop_details) # rest) processed =
     (let r1 = visit defs (fd_ref prop_details) processed;
          r2 = (if fd_type prop_details = Some ''array''
                then visit defs (item_ref prop_details) (snd r1)
                else ([], snd r1));
          r3 = generate_dependencies defs rest (snd r2)
      in (fst r1 @ fst r2 @ fst r3, snd r3))"
  unfolding visit_def by simp

lemma visit_inv_mono: "visit_inv defs P bs P' \<Longrightarrow> P \<subseteq> P'"
  by (simp add: visit_inv_def)

lemma visit_inv_empty_node:
  assumes "map_of defs name = Some d" "name \<notin> P" "get_properties d = []"
  shows "visit_inv defs P [] (insert name P)" and "covers defs [name] P (insert name P)"
proof -
  have nd: "insert name P - P \<subseteq> dom (map_of defs)" using assms(1) by blast
  have np: "\<forall>n \<in> insert name P - P. \<forall>d. map_of defs n = Some d \<and> get_properties d \<noteq> [] \<longrightarrow>
              n \<in> set (emitted_names [])"
    using assms(1,3) by auto
  have e: "emitted_names ([] :: block list) = []" by (simp add: emitted_names_def)
  show "visit_inv defs P [] (insert name P)"
    unfolding visit_inv_def e
  proof (intro conjI)
    show "insert name P - P \<subseteq> dom (map_of defs)" by (rule nd)
    show "\<forall>n \<in> insert name P - P. \<forall>d. map_of defs n = Some d \<and> get_properties d \<noteq> [] \<longrightarrow>
              n \<in> set []"
      by (rule np[unfolded e])
  qed auto
  have "name \<in> dom (map_of defs)" using assms(1) by blast
  then show "covers defs [name] P (insert name P)"
    unfolding covers_def using depends_on_refl by fastforce
qed

lemma covers_visited: "name \<in> P \<Longrightarrow> covers defs [name] P P"
  by (simp add: covers_def)

lemma visit_step:
  assumes "\<And>nd. lookup_ref defs r = Some nd \<Longrightarrow> map_of defs (fst nd) = Some (snd nd) \<longrightarrow>
             visit_inv defs P (fst (generate_interface defs (fst nd) (snd nd) P))
               (snd (generate_interface defs (fst nd) (snd nd) P))
           \<and> covers defs [fst nd] P (snd (generate_interface defs (fst nd) (snd nd) P))"
  shows "visit_inv defs P (fst (visit defs r P)) (snd (visit defs r P))
       \<and> covers defs (if or_empty r \<noteq> [] then [or_empty r] else []) P (snd (visit defs r P))"
proof (cases "lookup_ref defs r")
  case None
  then have v: "visit defs r P = ([], P)" by (simp add: visit_def)
  have "covers defs (if or_empty r \<noteq> [] then [or_empty r] else []) P P"
    using lookup_ref_None[OF None] by (cases "or_empty r = []") (simp_all add: covers_nil covers_absent)
  then show ?thesis using v by (simp add: visit_inv_empty)
next
  case (Some nd)
  then have v: "visit defs r P = generate_interface defs (fst nd) (snd nd) P"
    by (simp add: visit_def)
  have l: "or_empty r \<noteq> []" "fst nd = or_empty r" "map_of defs (or_empty r) = Some (snd nd)"
    using lookup_ref_Some[OF Some] by auto
  show ?thesis using assms[OF Some] l v by simp
qed

lemma referenced_names_Cons:
  "referenced_names ((prop_name, prop_details) # rest) =
     (if or_empty (fd_ref prop_details) \<noteq> [] then [or_empty (fd_ref prop_details)] else [])
     @ (if fd_type prop_details = Some ''array''
        then (if or_empty (item_ref prop_details) \<noteq> [] then [or_empty (item_ref prop_details)] else [])
        else [])
     @ referenced_names rest"
  by (simp add: referenced_names_def field_refs_def)

lemma generation_invariant:
  "map_of defs name = Some d \<longrightarrow>
     visit_inv defs P (fst (generate_interface defs name d P)) (snd (generate_interface defs name d P))
   \<and> covers defs [name] P (snd (generate_interface defs name d P))"
  "visit_inv defs P (fst (generate_dependencies defs fs P)) (snd (generate_dependencies defs fs P))
   \<and> covers defs (referenced_names fs) P (snd (generate_dependencies defs fs P))"
proof (induction defs name d P and defs fs P rule: generate_interface_generate_dependencies.induct)
  case (1 defs model_name model_def processed)
  show ?case
  proof
    assume look: "map_of defs model_name = Some model_def"
    show "visit_inv defs processed (fst (generate_interface defs model_name model_def processed))
            (snd (generate_interface defs model_name model_def processed))
        \<and> covers defs [model_name] processed
            (snd (generate_interface defs model_name model_def processed))"
    proof (cases "model_name \<in> processed")
      case True
      then show ?thesis
        by (simp add: generate_interface_visited visit_inv_empty covers_visited)
    next
      case False
      show ?thesis
      proof (cases "get_properties model_def = []")
        case True
        then show ?thesis
          using visit_inv_empty_node[OF look False True]
          by (simp add: generate_interface_empty[OF False True])
      next
        case ne: False
        note ih = 1[OF False ne]
        note n = visit_inv_node[OF look False ne conjunct1[OF ih] conjunct2[OF ih]]
        show ?thesis
          using n by (simp add: generate_interface_fresh[OF False ne])
      qed
    qed
  qed
next
  case (2 defs processed)
  then show ?case
    by (simp add: visit_inv_empty covers_nil referenced_names_def)
next
  case (3 defs prop_name prop_details rest processed)
  define r1 where "r1 = visit defs (fd_ref prop_details) processed"
  define r2 where "r2 = (if fd_type prop_details = Some ''array''
                then visit defs (item_ref prop_details) (snd r1)
                else ([], snd r1))"
  define r3 where "r3 = generate_dependencies defs rest (snd r2)"
  define c1 where "c1 = (if or_empty (fd_ref prop_details) \<noteq> [] then [or_empty (fd_ref prop_details)] else [])"
  define c2 where "c2 = (if fd_type prop_details = Some ''array''
        then (if or_empty (item_ref prop_details) \<noteq> [] then [or_empty (item_ref prop_details)] else [])
        else [])"
  have r1_raw: "r1 = (case lookup_ref defs (fd_ref prop_details) of
            None \<Rightarrow> ([], processed)
          | Some nd \<Rightarrow> generate_interface defs (fst nd) (snd nd) processed)"
    by (simp add: r1_def visit_def)
  have r2_raw: "r2 = (if fd_type prop_details = Some ''array''
            then case lookup_ref defs (item_ref prop_details) of
                   None \<Rightarrow> ([], snd r1)
                 | Some nd \<Rightarrow> generate_interface defs (fst nd) (snd nd) (snd r1)
            else ([], snd r1))"
    by (simp add: r2_def visit_def)
  have s1: "visit_inv defs processed (fst r1) (snd r1) \<and> covers defs c1 processed (snd r1)"
    unfolding r1_def c1_def by (rule visit_step) (rule "3.IH"(1))
  have s2: "visit_inv defs (snd r1) (fst r2) (snd r2) \<and> covers defs c2 (snd r1) (snd r2)"
  proof (cases "fd_type prop_details = Some ''array''")
    case True
    have "visit_inv defs (snd r1) (fst (visit defs (item_ref prop_details) (snd r1)))
            (snd (visit defs (item_ref prop_details) (snd r1)))
        \<and> covers defs (if or_empty (item_ref prop_details) \<noteq> [] then [or_empty (item_ref prop_details)] else [])
            (snd r1) (snd (visit defs (item_ref prop_details) (snd r1)))"
      by (rule visit_step) (rule "3.IH"(2)[OF r1_raw True])
    then show ?thesis using True by (simp add: r2_def c2_def)
  next
    case False
    then show ?thesis by (simp add: r2_def c2_def visit_inv_empty covers_nil)
  qed
  have s3: "visit_inv defs (snd r2) (fst r3) (snd r3)
          \<and> covers defs (referenced_names rest) (snd r2) (snd r3)"
    unfolding r3_def by (rule "3.IH"(3)[OF r1_raw r2_raw])
  have res: "generate_dependencies defs ((prop_name, prop_details) # rest) processed
               = (fst r1 @ fst r2 @ fst r3, snd r3)"
    by (simp add: generate_dependencies_Cons r1_def r2_def r3_def Let_def del: generate_dependencies.simps)
  have i23: "visit_inv defs (snd r1) (fst r2 @ fst r3) (snd r3)"
    using visit_inv_seq s2 s3 by blast
  have i123: "visit_inv defs processed (fst r1 @ fst r2 @ fst r3) (snd r3)"
    using visit_inv_seq s1 i23 by blast
  have c23: "covers defs (c2 @ referenced_names rest) (snd r1) (snd r3)"
    using covers_seq s2 s3 visit_inv_mono by blast
  have c123: "covers defs (c1 @ c2 @ referenced_names rest) processed (snd r3)"
    using covers_seq[OF _ c23] s1 visit_inv_mono[OF i23] by blast
  show ?case
    unfolding res referenced_names_Cons
    using i123 c123 by (simp add: c1_def c2_def)
qed

section \<open>The traversal keeps its invariant\<close>

lemma count_list_distinct:
  "distinct xs \<Longrightarrow> count_list xs x = (if x \<in> set xs then 1 else 0)"
  by (induction xs) auto

lemma generate_models_invariant:
  "visit_inv defs P (fst (generate_models defs roots P)) (snd (generate_models defs roots P))
   \<and> covers defs roots P (snd (generate_models defs roots P))"
proof (induction roots arbitrary: P)
  case Nil
  then show ?case by (simp add: visit_inv_empty covers_nil)
next
  case (Cons m roots)
  show ?case
  proof (cases "map_of defs m")
    case None
    then have "m \<notin> dom (map_of defs)" by blast
    then have "covers defs [m] P P" by (rule covers_absent)
    then have "covers defs ([m] @ roots) P (snd (generate_models defs roots P))"
      using covers_seq Cons.IH[of P] visit_inv_mono by blast
    then show ?thesis using None Cons.IH[of P] by simp
  next
    case (Some d)
    define r where "r = generate_interface defs m d P"
    have g: "visit_inv defs P (fst r) (snd r)" "covers defs [m] P (snd r)"
      using generation_invariant(1)[of defs m d P] Some by (simp_all add: r_def)
    note ih = Cons.IH[of "snd r"]
    have i: "visit_inv defs P (fst r @ fst (generate_models defs roots (snd r)))
               (snd (generate_models defs roots (snd r)))"
      using visit_inv_seq g(1) ih by blast
    have c: "covers defs ([m] @ roots) P (snd (generate_models defs roots (snd r)))"
      using covers_seq g(2) ih visit_inv_mono by blast
    show ?thesis using i c Some by (simp add: r_def Let_def)
  qed
qed

lemma run_invariant:
  "visit_inv defs {} (fst (run defs roots)) (snd (run defs roots))"
  "covers defs roots {} (snd (run defs roots))"
  using generate_models_invariant[of defs "{}" roots] by (simp_all add: run_def)

lemma run_distinct: "distinct (emitted_names (fst (run defs roots)))"
  using run_invariant(1)[of defs roots] by (simp add: visit_inv_def)

lemma run_emitted_visited: "set (emitted_names (fst (run defs roots))) \<subseteq> snd (run defs roots)"
  using run_invariant(1)[of defs roots] unfolding visit_inv_def by blast

lemma run_visited_in_table: "snd (run defs roots) \<subseteq> dom (map_of defs)"
  using run_invariant(1)[of defs roots] unfolding visit_inv_def by blast


lemma run_order:
  "D \<in> set (emitted_names (fst (run defs roots))) \<Longrightarrow> references defs D E
     \<Longrightarrow> E \<in> dom (map_of defs)
     \<Longrightarrow> appears_before E D (emitted_names (fst (run defs roots)))
         \<or> E \<notin> set (emitted_names (fst (run defs roots))) \<or> depends_on defs E D"
  using run_invariant(1)[of defs roots] unfolding visit_inv_def by blast

lemma run_visited_emitted:
  "n \<in> snd (run defs roots) \<Longrightarrow> map_of defs n = Some d \<Longrightarrow> get_properties d \<noteq> []
     \<Longrightarrow> n \<in> set (emitted_names (fst (run defs roots)))"
  using run_invariant(1)[of defs roots] unfolding visit_inv_def by blast

lemma run_blocks:
  "b \<in> set (fst (run defs roots)) \<Longrightarrow>
     \<exists>d. map_of defs (fst b) = Some d \<and> get_properties d \<noteq> [] \<and> snd b = interface_lines (fst b) d"
  using run_invariant(1)[of defs roots] unfolding visit_inv_def by blast

lemma run_roots_visited:
  "r \<in> set roots \<Longrightarrow> r \<in> dom (map_of defs) \<Longrightarrow> r \<in> snd (run defs roots)"
  using run_invariant(2)[of defs roots] unfolding covers_def by blast


lemma run_root_emitted:
  assumes "r \<in> set roots" "map_of defs r = Some d" "get_properties d \<noteq> []"
  shows "r \<in> set (emitted_names (fst (run defs roots)))"
proof -
  have "r \<in> dom (map_of defs)" using assms(2) by blast
  then have "r \<in> snd (run defs roots)" using assms(1) by (rule run_roots_visited[rotated])
  then show ?thesis using assms(2,3) by (rule run_visited_emitted)
qed


section \<open>No duplicate declarations\<close>

text \<open>
  C3. A run creates one Visited Set and threads it through all requested roots. In the
  output of every run, for every list of roots (a root may be requested several times, and
  roots may share dependencies), no name has more than one declaration block; every block is
  the declaration of its name in the table; and every requested root that is in the table
  and has properties has exactly one block.
\<close>

theorem no_duplicate_declarations:
  "distinct (emitted_names (fst (run defs roots)))
   \<and> count_list (emitted_names (fst (run defs roots))) name \<le> 1
   \<and> (\<forall>b \<in> set (fst (run defs roots)).
        \<exists>d. map_of defs (fst b) = Some d \<and> snd b = interface_lines (fst b) d)
   \<and> (\<forall>r \<in> set roots. \<forall>d. map_of defs r = Some d \<and> get_properties d \<noteq> [] \<longrightarrow>
        count_list (emitted_names (fst (run defs roots))) r = 1)"
proof (intro conjI ballI allI impI)
  show "distinct (emitted_names (fst (run defs roots)))" by (rule run_distinct)
  show "count_list (emitted_names (fst (run defs roots))) name \<le> 1"
    by (simp add: count_list_distinct[OF run_distinct])
next
  fix b assume "b \<in> set (fst (run defs roots))"
  then show "\<exists>d. map_of defs (fst b) = Some d \<and> snd b = interface_lines (fst b) d"
    using run_blocks by blast
next
  fix r d assume "r \<in> set roots" "map_of defs r = Some d \<and> get_properties d \<noteq> []"
  then have "r \<in> set (emitted_names (fst (run defs roots)))"
    using run_root_emitted by blast
  then show "count_list (emitted_names (fst (run defs roots))) r = 1"
    by (simp add: count_list_distinct[OF run_distinct])
qed

text \<open>The equations that evaluate a run on a concrete table.\<close>

lemmas eval_defs = run_def emitted_names_def lookup_ref_def get_properties_def
  generate_interface.simps Let_def

text \<open>
  \<open>Appointment\<close> requested twice and its dependency \<open>Client\<close> requested as a root
  too.
\<close>

theorem no_duplicate_declarations_witness:
  "emitted_names (fst (run client_defs [''Appointment'', ''Client'', ''Appointment'']))
     = [''Client'', ''Appointment'']
   \<and> count_list (emitted_names (fst (run client_defs [''Appointment'', ''Client'', ''Appointment'']))) ''Client'' = 1
   \<and> count_list (emitted_names (fst (run client_defs [''Appointment'', ''Client'', ''Appointment'']))) ''Appointment'' = 1"
proof -
  have n: "emitted_names (fst (run client_defs [''Appointment'', ''Client'', ''Appointment'']))
     = [''Client'', ''Appointment'']"
    by (simp add: client_defs_def eval_defs item_ref_def)
  have c: "''Client'' \<in> set [''Appointment'', ''Client'', ''Appointment'']" by simp
  have a: "''Appointment'' \<in> set [''Appointment'', ''Client'', ''Appointment'']" by simp
  from no_duplicate_declarations[of client_defs "[''Appointment'', ''Client'', ''Appointment'']" "''Client''"]
  have "\<forall>r \<in> set [''Appointment'', ''Client'', ''Appointment''].
          \<forall>d. map_of client_defs r = Some d \<and> get_properties d \<noteq> [] \<longrightarrow>
           count_list (emitted_names (fst (run client_defs [''Appointment'', ''Client'', ''Appointment'']))) r = 1"
    by blast
  then have "count_list (emitted_names (fst (run client_defs [''Appointment'', ''Client'', ''Appointment'']))) ''Client'' = 1"
    and "count_list (emitted_names (fst (run client_defs [''Appointment'', ''Client'', ''Appointment'']))) ''Appointment'' = 1"
    by (simp_all add: client_defs_def get_properties_def)
  then show ?thesis using n by simp
qed

section \<open>Dependency ordering\<close>

lemma depends_on_cases:
  "depends_on defs a b \<Longrightarrow> a = b \<or> (\<exists>c. references defs a c)"
  unfolding depends_on_def by (auto elim: converse_rtranclE)

text \<open>
  C2, as stated, fails on a reference cycle. With \<open>A\<close> and \<open>B\<close> referencing each other
  and \<open>A\<close> requested, \<open>B\<close> is declared first: \<open>B\<close> references \<open>A\<close>, and the
  declaration of \<open>A\<close> is in the output after that of \<open>B\<close>, not before it.
\<close>

theorem dependency_after_dependent_counterexample:
  "references cycle_defs ''B'' ''A''
   \<and> emitted_names (fst (run cycle_defs [''A''])) = [''B'', ''A'']
   \<and> appears_before ''B'' ''A'' (emitted_names (fst (run cycle_defs [''A''])))
   \<and> \<not> appears_before ''A'' ''B'' (emitted_names (fst (run cycle_defs [''A''])))
   \<and> ''A'' \<in> set (emitted_names (fst (run cycle_defs [''A''])))"
  by (simp add: cycle_defs_def eval_defs item_ref_def references_def referenced_names_def
      field_refs_def)

text \<open>
  C2, amended. If \<open>D\<close> references \<open>E\<close> (directly or through an array), \<open>D\<close> is
  declared in the output of a run, and \<open>E\<close> does not reach \<open>D\<close> along references (the
  two are not on a reference cycle), then the declaration of \<open>E\<close> is strictly before that of
  \<open>D\<close>, or \<open>E\<close> has no declaration in the output.
\<close>

theorem dependency_declared_first_unless_cycle:
  assumes "references defs D E"
    and "D \<in> set (emitted_names (fst (run defs roots)))"
    and "\<not> depends_on defs E D"
  shows "appears_before E D (emitted_names (fst (run defs roots)))
         \<or> E \<notin> set (emitted_names (fst (run defs roots)))"
proof (cases "E \<in> dom (map_of defs)")
  case True
  then show ?thesis using run_order[OF assms(2,1)] assms(3) by blast
next
  case False
  then have "E \<notin> set (emitted_names (fst (run defs roots)))"
    using run_emitted_visited[of defs roots] run_visited_in_table[of defs roots] by blast
  then show ?thesis by blast
qed

text \<open>\<open>Appointment\<close> references \<open>Client\<close>, which references nothing.\<close>

theorem dependency_declared_first_unless_cycle_witness:
  "references client_defs ''Appointment'' ''Client''
   \<and> ''Appointment'' \<in> set (emitted_names (fst (run client_defs [''Appointment''])))
   \<and> \<not> depends_on client_defs ''Client'' ''Appointment''
   \<and> appears_before ''Client'' ''Appointment'' (emitted_names (fst (run client_defs [''Appointment''])))"
proof -
  have r: "references client_defs ''Appointment'' ''Client''"
    by (simp add: client_defs_def references_def referenced_names_def field_refs_def
        get_properties_def item_ref_def)
  have n: "emitted_names (fst (run client_defs [''Appointment''])) = [''Client'', ''Appointment'']"
    by (simp add: client_defs_def eval_defs item_ref_def)
  have e: "''Appointment'' \<in> set (emitted_names (fst (run client_defs [''Appointment''])))"
    by (simp add: n)
  have "\<And>c. \<not> references client_defs ''Client'' c"
    by (simp add: client_defs_def references_def referenced_names_def field_refs_def
        get_properties_def item_ref_def)
  then have d: "\<not> depends_on client_defs ''Client'' ''Appointment''"
    using depends_on_cases[of client_defs "''Client''" "''Appointment''"] by auto
  from dependency_declared_first_unless_cycle[OF r e d]
  have "appears_before ''Client'' ''Appointment'' (emitted_names (fst (run client_defs [''Appointment''])))"
    by (simp add: n)
  then show ?thesis using r e d by blast
qed

section \<open>Cycle termination\<close>




section \<open>Names that are not in the table\<close>

lemma generate_models_append:
  "generate_models defs (xs @ ys) P =
     (fst (generate_models defs xs P) @ fst (generate_models defs ys (snd (generate_models defs xs P))),
      snd (generate_models defs ys (snd (generate_models defs xs P))))"
  by (induction xs arbitrary: P) (auto simp: Let_def split: option.splits)

lemma generate_models_visited:
  "snd (generate_models defs roots P) \<subseteq> P \<union> dom (map_of defs)"
  using generate_models_invariant[of defs P roots] unfolding visit_inv_def by blast



text \<open>
  C10. A requested root that is not in the Definition Table is skipped: the run with it is
  the run without it (same blocks, same Visited Set, whatever is requested before and after
  it), it alone produces no block and leaves the Visited Set unchanged, and it is neither
  visited nor declared in any run. The model has no error value: the loop tests membership
  before it looks the name up.
\<close>

theorem absent_root_skipped:
  assumes "map_of defs model_name = None"
  shows "generate_models defs (earlier @ model_name # later) processed
           = generate_models defs (earlier @ later) processed
       \<and> generate_models defs [model_name] processed = ([], processed)
       \<and> model_name \<notin> snd (run defs roots)
       \<and> model_name \<notin> set (emitted_names (fst (run defs roots)))"
proof -
  have "generate_models defs (earlier @ model_name # later) processed
           = generate_models defs (earlier @ later) processed"
    by (simp add: generate_models_append[of defs earlier] assms)
  moreover have "generate_models defs [model_name] processed = ([], processed)"
    using assms by simp
  moreover have v: "model_name \<notin> snd (run defs roots)"
    using run_visited_in_table[of defs roots] assms by blast
  moreover have "model_name \<notin> set (emitted_names (fst (run defs roots)))"
    using v run_emitted_visited[of defs roots] by blast
  ultimately show ?thesis by blast
qed

text \<open>A root \<open>Missing\<close> before \<open>Appointment\<close>.\<close>

theorem absent_root_skipped_witness:
  "map_of client_defs ''Missing'' = None
   \<and> run client_defs [''Missing'', ''Appointment''] = run client_defs [''Appointment'']
   \<and> ''Missing'' \<notin> snd (run client_defs [''Missing'', ''Appointment''])"
proof -
  have m: "map_of client_defs ''Missing'' = None" by (simp add: client_defs_def)
  from absent_root_skipped[OF m, of "[]" "[''Appointment'']" "{}" "[''Missing'', ''Appointment'']"]
  show ?thesis using m by (simp add: run_def)
qed



end
